theory Spec2Isabelle
  imports Main "HOL-Library.Char_ord" "HOL-Library.List_Lexorder" "HOL-Library.Multiset"
begin

section \<open>Characters and the string primitives of the language\<close>

text \<open>
  A Python \<open>str\<close> is a sequence of code points. The model takes the code points
  0 to 255 (the type \<^typ>\<open>char\<close>), so a body is a \<^typ>\<open>string\<close> and \<open>length\<close> counts
  code points. The character tests below are the ones the interpreter applies to these
  code points: \<open>str.isdecimal\<close>, \<open>str.isdigit\<close>, \<open>str.isnumeric\<close>, \<open>str.isalpha\<close>,
  \<open>str.isspace\<close> and \<open>str.lower\<close>, with the regular-expression classes \<open>\d\<close>
  (decimal digits) and \<open>\w\<close> (alphanumerics and the underscore) built from them.
\<close>

definition between :: "char \<Rightarrow> char \<Rightarrow> char \<Rightarrow> bool" where
  "between a b c = (a \<le> c \<and> c \<le> b)"

definition isdecimal :: "char \<Rightarrow> bool" where
  "isdecimal c = between (CHR ''0'') (CHR ''9'') c"

definition isdigit :: "char \<Rightarrow> bool" where
  "isdigit c = (isdecimal c \<or> c = CHR 0xB2 \<or> c = CHR 0xB3 \<or> c = CHR 0xB9)"

definition isnumeric :: "char \<Rightarrow> bool" where
  "isnumeric c = (isdigit c \<or> between (CHR 0xBC) (CHR 0xBE) c)"

definition isalpha :: "char \<Rightarrow> bool" where
  "isalpha c = (between (CHR ''A'') (CHR ''Z'') c \<or> between (CHR ''a'') (CHR ''z'') c
     \<or> c = CHR 0xAA \<or> c = CHR 0xB5 \<or> c = CHR 0xBA
     \<or> between (CHR 0xC0) (CHR 0xD6) c \<or> between (CHR 0xD8) (CHR 0xF6) c
     \<or> between (CHR 0xF8) (CHR 0xFF) c)"

definition isalnum :: "char \<Rightarrow> bool" where
  "isalnum c = (isalpha c \<or> isdecimal c \<or> isdigit c \<or> isnumeric c)"

definition isspace :: "char \<Rightarrow> bool" where
  "isspace c = (between (CHR 0x09) (CHR 0x0D) c \<or> between (CHR 0x1C) (CHR 0x1F) c
     \<or> c = CHR '' '' \<or> c = CHR 0x85 \<or> c = CHR 0xA0)"

definition is_word :: "char \<Rightarrow> bool" where
  "is_word c = (isalnum c \<or> c = CHR ''_'')"

definition lower_char :: "char \<Rightarrow> char" where
  "lower_char c =
     (if between (CHR ''A'') (CHR ''Z'') c
         \<or> (between (CHR 0xC0) (CHR 0xDE) c \<and> c \<noteq> CHR 0xD7)
      then char_of (of_char c + (32 :: nat)) else c)"

definition lower :: "string \<Rightarrow> string" where
  "lower s = map lower_char s"

definition strip :: "string \<Rightarrow> string" where
  "strip s = rev (dropWhile isspace (rev (dropWhile isspace s)))"

text \<open>
  \<open>str.split()\<close> without arguments: the words are the maximal runs of characters that
  are not whitespace; no empty word is produced. The first argument is the word being
  collected.
\<close>

fun split_from :: "string \<Rightarrow> string \<Rightarrow> string list" where
  "split_from cur [] = (if cur = [] then [] else [cur])"
| "split_from cur (c # cs) =
     (if isspace c then (if cur = [] then split_from [] cs else cur # split_from [] cs)
      else split_from (cur @ [c]) cs)"

definition split :: "string \<Rightarrow> string list" where
  "split s = split_from [] s"

section \<open>Regular expressions\<close>

text \<open>
  The patterns of the program use literals, character sets, \<open>\d\<close>, \<open>\W\<close>, \<open>\b\<close>,
  sequencing, alternation, \<open>?\<close>, \<open>+\<close> and \<open>{n}\<close>. A position of the matcher is the
  character just before it (none at the start of the text) and the text that remains.
  \<open>rmatch r x\<close> lists the positions at which a match of \<open>r\<close> started at \<open>x\<close> can end, in
  the order in which the backtracking matcher tries them: the greedy choice first,
  the left alternative first. The match that \<open>re\<close> reports is the first of the list.
\<close>

type_synonym pos = "char option \<times> string"

datatype cset_item = Ch char | Range char char

datatype regex =
    Eps
  | Lit char
  | CSet "cset_item list"
  | Digit
  | NonWord
  | WordB
  | Seq regex regex
  | Alt regex regex
  | Opt regex
  | Plus regex
  | Rep nat regex

fun in_item :: "cset_item \<Rightarrow> char \<Rightarrow> bool" where
  "in_item (Ch a) c = (c = a)"
| "in_item (Range a b) c = between a b c"

definition in_cset :: "cset_item list \<Rightarrow> char \<Rightarrow> bool" where
  "in_cset items c = list_ex (\<lambda>it. in_item it c) items"

fun take_char :: "(char \<Rightarrow> bool) \<Rightarrow> pos \<Rightarrow> pos list" where
  "take_char P (p, []) = []"
| "take_char P (p, c # cs) = (if P c then [(Some c, cs)] else [])"

fun word_before :: "char option \<Rightarrow> bool" where
  "word_before None = False"
| "word_before (Some c) = is_word c"

fun word_after :: "string \<Rightarrow> bool" where
  "word_after [] = False"
| "word_after (c # cs) = is_word c"

definition at_boundary :: "pos \<Rightarrow> bool" where
  "at_boundary x = (word_before (fst x) \<noteq> word_after (snd x))"

text \<open>
  Greedy repetition: after one match of the body, first try to repeat, then stop. A
  repetition is tried only after the body has consumed text, so the fuel, which starts
  above the length of the remaining text, is never used up (lemma \<open>plus_iter_fuel\<close>).
\<close>

fun plus_iter :: "nat \<Rightarrow> (pos \<Rightarrow> pos list) \<Rightarrow> pos \<Rightarrow> pos list" where
  "plus_iter 0 f x = []"
| "plus_iter (Suc n) f x =
     concat (map (\<lambda>y. (if length (snd y) < length (snd x) then plus_iter n f y else []) @ [y])
                 (f x))"

fun rep_iter :: "nat \<Rightarrow> (pos \<Rightarrow> pos list) \<Rightarrow> pos \<Rightarrow> pos list" where
  "rep_iter 0 f x = [x]"
| "rep_iter (Suc n) f x = concat (map (rep_iter n f) (f x))"

primrec rmatch :: "regex \<Rightarrow> pos \<Rightarrow> pos list" where
  "rmatch Eps = (\<lambda>x. [x])"
| "rmatch (Lit a) = take_char (\<lambda>c. c = a)"
| "rmatch (CSet items) = take_char (in_cset items)"
| "rmatch Digit = take_char isdecimal"
| "rmatch NonWord = take_char (\<lambda>c. \<not> is_word c)"
| "rmatch WordB = (\<lambda>x. if at_boundary x then [x] else [])"
| "rmatch (Seq a b) = (\<lambda>x. concat (map (rmatch b) (rmatch a x)))"
| "rmatch (Alt a b) = (\<lambda>x. rmatch a x @ rmatch b x)"
| "rmatch (Opt a) = (\<lambda>x. rmatch a x @ [x])"
| "rmatch (Plus a) = (\<lambda>x. plus_iter (Suc (length (snd x))) (rmatch a) x)"
| "rmatch (Rep n a) = rep_iter n (rmatch a)"

definition first_match :: "regex \<Rightarrow> pos \<Rightarrow> pos option" where
  "first_match r x = (case rmatch r x of [] \<Rightarrow> None | y # ys \<Rightarrow> Some y)"

text \<open>
  \<open>pattern.sub(repl, text)\<close>: scan from the left; where the pattern matches, emit the
  replacement and go on after the match; elsewhere copy one character. None of the
  patterns below matches the empty string (lemmas \<open>patterns_consume\<close> and
  \<open>sub_from_step\<close>), so the rule of \<open>re\<close> for empty matches is never applied and is
  left out.
\<close>

function sub_from :: "regex \<Rightarrow> string \<Rightarrow> char option \<Rightarrow> string \<Rightarrow> string" where
  "sub_from r repl p [] = []"
| "sub_from r repl p (c # cs) =
     (case first_match r (p, c # cs) of
        None \<Rightarrow> c # sub_from r repl (Some c) cs
      | Some (q, rest) \<Rightarrow>
          if length rest < length (c # cs) then repl @ sub_from r repl q rest
          else c # sub_from r repl (Some c) cs)"
  by pat_completeness auto
termination
  by (relation "measure (\<lambda>(r, repl, p, s). length s)") auto

definition sub :: "regex \<Rightarrow> string \<Rightarrow> string \<Rightarrow> string" where
  "sub r repl s = sub_from r repl None s"

text \<open>
  Three syntactic measures of a pattern, used to reason about its matches: the least
  number of characters a match consumes, the characters that some atom of the pattern
  can consume, and whether the pattern contains \<open>\b\<close>. A character is a barrier for a
  pattern when no atom consumes it and, if the pattern looks at word boundaries, it is
  not a word character: then no match extends over it.
\<close>

primrec min_len :: "regex \<Rightarrow> nat" where
  "min_len Eps = 0"
| "min_len (Lit a) = 1"
| "min_len (CSet items) = 1"
| "min_len Digit = 1"
| "min_len NonWord = 1"
| "min_len WordB = 0"
| "min_len (Seq a b) = min_len a + min_len b"
| "min_len (Alt a b) = min (min_len a) (min_len b)"
| "min_len (Opt a) = 0"
| "min_len (Plus a) = min_len a"
| "min_len (Rep n a) = n * min_len a"

primrec accepts :: "regex \<Rightarrow> char \<Rightarrow> bool" where
  "accepts Eps c = False"
| "accepts (Lit a) c = (c = a)"
| "accepts (CSet items) c = in_cset items c"
| "accepts Digit c = isdecimal c"
| "accepts NonWord c = (\<not> is_word c)"
| "accepts WordB c = False"
| "accepts (Seq a b) c = (accepts a c \<or> accepts b c)"
| "accepts (Alt a b) c = (accepts a c \<or> accepts b c)"
| "accepts (Opt a) c = accepts a c"
| "accepts (Plus a) c = accepts a c"
| "accepts (Rep n a) c = accepts a c"

primrec uses_boundary :: "regex \<Rightarrow> bool" where
  "uses_boundary Eps = False"
| "uses_boundary (Lit a) = False"
| "uses_boundary (CSet items) = False"
| "uses_boundary Digit = False"
| "uses_boundary NonWord = False"
| "uses_boundary WordB = True"
| "uses_boundary (Seq a b) = (uses_boundary a \<or> uses_boundary b)"
| "uses_boundary (Alt a b) = (uses_boundary a \<or> uses_boundary b)"
| "uses_boundary (Opt a) = uses_boundary a"
| "uses_boundary (Plus a) = uses_boundary a"
| "uses_boundary (Rep n a) = uses_boundary a"


definition barrier :: "regex \<Rightarrow> char \<Rightarrow> bool" where
  "barrier r w = (\<not> accepts r w \<and> (uses_boundary r \<longrightarrow> \<not> is_word w))"

text \<open>
  \<open>extend t\<close> puts the text \<open>t\<close> after the remaining text of a position.
  Two positions have the same view when the same text remains and, where word
  boundaries matter, the characters before them are both word characters or both not.
\<close>

definition extend :: "string \<Rightarrow> pos \<Rightarrow> pos" where
  "extend t x = (fst x, snd x @ t)"

definition same_view :: "bool \<Rightarrow> pos \<Rightarrow> pos \<Rightarrow> bool" where
  "same_view B x y = (snd x = snd y \<and> (B \<longrightarrow> word_before (fst x) = word_before (fst y)))"

fun lits :: "string \<Rightarrow> regex" where
  "lits [] = Eps"
| "lits [c] = Lit c"
| "lits (c # cs) = Seq (Lit c) (lits cs)"

fun seqs :: "regex list \<Rightarrow> regex" where
  "seqs [] = Eps"
| "seqs [r] = r"
| "seqs (r # rs) = Seq r (seqs rs)"

fun alts :: "regex list \<Rightarrow> regex" where
  "alts [] = Eps"
| "alts [r] = r"
| "alts (r # rs) = Alt r (alts rs)"

section \<open>The patterns of the program\<close>

definition hexdigit_lc :: "cset_item list" where
  "hexdigit_lc = [Range (CHR ''0'') (CHR ''9''), Range (CHR ''a'') (CHR ''f'')]"

definition hexdigit_any :: "cset_item list" where
  "hexdigit_any = [Range (CHR ''0'') (CHR ''9''), Range (CHR ''a'') (CHR ''f''),
                   Range (CHR ''A'') (CHR ''F'')]"

text \<open>\<^verbatim>\<open>http[s]?://(?:[a-zA-Z]|[0-9]|[$-_@.&+]|[!*\(\),]|(?:%[0-9a-fA-F][0-9a-fA-F]))+\<close>\<close>

definition re_url :: regex where
  "re_url = seqs [lits ''http'', Opt (CSet [Ch (CHR ''s'')]), lits ''://'',
     Plus (alts [
       CSet [Range (CHR ''a'') (CHR ''z''), Range (CHR ''A'') (CHR ''Z'')],
       CSet [Range (CHR ''0'') (CHR ''9'')],
       CSet [Range (CHR ''$'') (CHR ''_''), Ch (CHR ''@''), Ch (CHR ''.''), Ch (CHR ''&''),
             Ch (CHR ''+'')],
       CSet [Ch (CHR ''!''), Ch (CHR ''*''), Ch (CHR ''(''), Ch (CHR '')''), Ch (CHR '','')],
       seqs [Lit (CHR ''%''), CSet hexdigit_any, CSet hexdigit_any]])]"

text \<open>\<^verbatim>\<open>[a-zA-Z0-9_.+-]+@[a-zA-Z0-9-]+\.[a-zA-Z0-9-.]+\<close>\<close>

definition re_email :: regex where
  "re_email = seqs [
     Plus (CSet [Range (CHR ''a'') (CHR ''z''), Range (CHR ''A'') (CHR ''Z''),
                 Range (CHR ''0'') (CHR ''9''), Ch (CHR ''_''), Ch (CHR ''.''), Ch (CHR ''+''),
                 Ch (CHR ''-'')]),
     Lit (CHR ''@''),
     Plus (CSet [Range (CHR ''a'') (CHR ''z''), Range (CHR ''A'') (CHR ''Z''),
                 Range (CHR ''0'') (CHR ''9''), Ch (CHR ''-'')]),
     Lit (CHR ''.''),
     Plus (CSet [Range (CHR ''a'') (CHR ''z''), Range (CHR ''A'') (CHR ''Z''),
                 Range (CHR ''0'') (CHR ''9''), Ch (CHR ''-''), Ch (CHR ''.'')])]"

text \<open>\<^verbatim>\<open>\b\d+\b\<close>\<close>

definition re_number :: regex where
  "re_number = seqs [WordB, Plus Digit, WordB]"

text \<open>\<^verbatim>\<open>[0-9a-f]{32}\<close>\<close>

definition re_hash :: regex where
  "re_hash = Rep 32 (CSet hexdigit_lc)"

text \<open>\<^verbatim>\<open>\W+\<close>\<close>

definition re_non_word :: regex where
  "re_non_word = Plus NonWord"

section \<open>The normalizer\<close>

text \<open>
  The five substitution steps of \<open>email_body_to_words\<close>, after lower-casing, in the
  order of the source.
\<close>

definition substitute :: "string \<Rightarrow> string" where
  "substitute body =
     sub re_number ''NUMBER''
       (sub re_hash ''HASH''
         (sub re_email ''EMAILADDRESS''
           (sub re_url ''HTTPADDRESS'' (lower body))))"



text \<open>
  A delimiter is a character that is not a word character and that neither the URL
  pattern nor the e-mail pattern can consume: whitespace, the double quote, the number
  sign, braces and others.
\<close>

definition delimiter :: "char \<Rightarrow> bool" where
  "delimiter c = (\<not> is_word c \<and> barrier re_url c \<and> barrier re_email c)"

definition shape_ok :: "string \<Rightarrow> bool" where
  "shape_ok word = (length word \<le> 20 \<and> CHR ''_'' \<notin> set word \<and> \<not> list_ex isdigit word)"

text \<open>The candidate words: the value of \<open>body.split()\<close> in the source.\<close>

definition candidate_words :: "string \<Rightarrow> string list" where
  "candidate_words body = split (strip (sub re_non_word '' '' (substitute body)))"

text \<open>
  \<open>email_body_to_words(body, stopwords, stemmer)\<close>. The source only tests
  \<open>word not in stopwords\<close>, so the stopwords are a set here; \<open>stem\<close> stands for
  \<open>stemmer.stem\<close> and may be any function on strings. The first comprehension drops
  the stopwords and stems what is left, the second keeps the words of the right shape.
\<close>

definition email_body_to_words :: "string \<Rightarrow> string set \<Rightarrow> (string \<Rightarrow> string) \<Rightarrow> string list" where
  "email_body_to_words body stopwords stem =
     (let words = map stem (filter (\<lambda>word. word \<notin> stopwords) (candidate_words body))
      in filter shape_ok words)"

text \<open>
  Two stemming functions used in examples, beside the identity \<^term>\<open>id\<close>: one that
  lower-cases its argument and maps \<open>having\<close> to \<open>have\<close>, as the English Snowball
  stemmer does on these words, and one that returns the empty string.
\<close>

definition example_stem :: "string \<Rightarrow> string" where
  "example_stem w = (if lower w = ''having'' then ''have'' else lower w)"

definition empty_stem :: "string \<Rightarrow> string" where
  "empty_stem w = []"

section \<open>The vocabulary\<close>

text \<open>
  The two collections of token sequences, \<open>emails_tokenized_ham\<close> and
  \<open>emails_tokenized_spam\<close> in the source, are the arguments \<open>ham\<close> and \<open>spam\<close>.
  \<open>vocab_set\<close> is the union of the tokens of both collections. \<open>sorted(list(vocab_set))\<close>
  sorts some listing of that set; whatever the listing, the result is the sorted list
  of the set (lemma \<open>sorted_any_listing\<close>). Strings compare by code point,
  lexicographically. The dictionary comprehension inserts the pairs in order.
\<close>

definition vocab_set :: "string list list \<Rightarrow> string list list \<Rightarrow> string set" where
  "vocab_set ham spam = set (concat ham) \<union> set (concat spam)"

definition dict_of :: "(nat \<times> string) list \<Rightarrow> (string \<rightharpoonup> nat)" where
  "dict_of pairs = fold (\<lambda>(index, word) d. d(word \<mapsto> index)) pairs Map.empty"

definition vocab_items :: "string list list \<Rightarrow> string list list \<Rightarrow> (nat \<times> string) list" where
  "vocab_items ham spam = enumerate 0 (sorted_list_of_set (vocab_set ham spam))"

definition vocab :: "string list list \<Rightarrow> string list list \<Rightarrow> (string \<rightharpoonup> nat)" where
  "vocab ham spam = dict_of (vocab_items ham spam)"

section \<open>Properties of the normalizer\<close>

lemma shape_ok_iff:
  "shape_ok w \<longleftrightarrow> length w \<le> 20 \<and> CHR ''_'' \<notin> set w \<and> (\<forall>c\<in>set w. \<not> isdigit c)"
  by (simp add: shape_ok_def list_ex_iff)

lemma output_tokens:
  "set (email_body_to_words body stopwords stem) =
     {t. shape_ok t \<and> (\<exists>w\<in>set (candidate_words body). w \<notin> stopwords \<and> t = stem w)}"
  by (auto simp add: email_body_to_words_def Let_def)

text \<open>
  C1. With no stopwords and the identity as stemming function, the body
  \<open>Hello, visit http://x.com now! Call 555 today.\<close> does not give the lower-case
  sequence hello, visit, httpaddress, now, call, number, today: the markers are
  inserted after lower-casing and stay in upper case.
\<close>

theorem C1_lowercase_markers_counterexample:
  "email_body_to_words ''Hello, visit http://x.com now! Call 555 today.'' {} id
     \<noteq> [''hello'', ''visit'', ''httpaddress'', ''now'', ''call'', ''number'', ''today'']"
  by code_simp

text \<open>
  C1, as amended. For that body and no stopwords, the identity stemming function gives
  hello, visit, HTTPADDRESS, now, call, NUMBER, today, in that order; a stemming
  function that lower-cases its argument gives the sequence with the markers in lower
  case.
\<close>

theorem C1_scenario_tokens:
  "email_body_to_words ''Hello, visit http://x.com now! Call 555 today.'' {} id
     = [''hello'', ''visit'', ''HTTPADDRESS'', ''now'', ''call'', ''NUMBER'', ''today'']
   \<and> email_body_to_words ''Hello, visit http://x.com now! Call 555 today.'' {} lower
     = [''hello'', ''visit'', ''httpaddress'', ''now'', ''call'', ''number'', ''today'']"
  by code_simp

text \<open>
  C3. Whatever the body, the stopword set and the stemming function, every token of
  the result has at most 20 characters, no underscore and no digit character.
\<close>

theorem C3_token_shape:
  "\<forall>t\<in>set (email_body_to_words body stopwords stem).
     length t \<le> 20 \<and> CHR ''_'' \<notin> set t \<and> (\<forall>c\<in>set t. \<not> isdigit c)"
  by (simp add: output_tokens shape_ok_iff)

theorem C3_token_shape_witness:
  "''hello'' \<in> set (email_body_to_words ''Hello, r2d2 and snake_case 42!'' {''and''} id)
   \<and> length ''hello'' \<le> 20 \<and> CHR ''_'' \<notin> set ''hello''
   \<and> \<not> list_ex isdigit ''hello''
   \<and> email_body_to_words ''Hello, r2d2 and snake_case 42!'' {''and''} id = [''hello'', ''NUMBER'']"
proof -
  have out: "email_body_to_words ''Hello, r2d2 and snake_case 42!'' {''and''} id
               = [''hello'', ''NUMBER'']"
    by code_simp
  have m: "''hello'' \<in> set (email_body_to_words ''Hello, r2d2 and snake_case 42!'' {''and''} id)"
    by (simp add: out)
  from bspec [OF C3_token_shape m] out m show ?thesis
    by (simp add: list_ex_iff)
qed

text \<open>
  C8. The four markers, in upper case as inserted and in lower case, pass the final
  filter: at most 20 characters, no underscore, no digit character.
\<close>

theorem C8_markers_pass_filter:
  "shape_ok ''HTTPADDRESS'' \<and> shape_ok ''EMAILADDRESS'' \<and> shape_ok ''NUMBER''
   \<and> shape_ok ''HASH'' \<and> shape_ok ''httpaddress'' \<and> shape_ok ''emailaddress''
   \<and> shape_ok ''number'' \<and> shape_ok ''hash''"
  by code_simp

lemma split_from_words:
  assumes "\<forall>c\<in>set cur. \<not> isspace c"
  shows "\<forall>w\<in>set (split_from cur s). w \<noteq> [] \<and> (\<forall>c\<in>set w. \<not> isspace c)"
  using assms
proof (induction s arbitrary: cur)
  case Nil
  then show ?case by simp
next
  case (Cons a s)
  have empty: "\<forall>c\<in>set ([] :: string). \<not> isspace c" by simp
  show ?case
  proof (cases "isspace a")
    case True
    from Cons.IH [OF empty] Cons.prems True show ?thesis by auto
  next
    case False
    with Cons.prems have "\<forall>c\<in>set (cur @ [a]). \<not> isspace c" by auto
    from Cons.IH [OF this] False show ?thesis by simp
  qed
qed

lemma split_words:
  "w \<in> set (split s) \<Longrightarrow> w \<noteq> [] \<and> (\<forall>c\<in>set w. \<not> isspace c)"
  using split_from_words [of "[]" s] by (simp add: split_def)

lemma candidate_words_shape:
  "w \<in> set (candidate_words body) \<Longrightarrow> w \<noteq> [] \<and> (\<forall>c\<in>set w. \<not> isspace c)"
  unfolding candidate_words_def by (rule split_words)

text \<open>
  C5. It is not the case that no member of the stopword set appears in the result:
  with the stopword \<open>have\<close> and a stemming function that maps \<open>having\<close> to \<open>have\<close>,
  the body \<open>having fun\<close> gives the token \<open>have\<close>.
\<close>

theorem C5_stemmed_stopword_counterexample:
  "email_body_to_words ''having fun'' {''have''} example_stem = [''have'', ''fun'']
   \<and> ''have'' \<in> {''have''} \<and> ''having'' \<notin> {''have''}
   \<and> example_stem ''having'' = ''have''"
  by code_simp

text \<open>
  C5, as amended. The stopword test is applied to the candidate words, before
  stemming: every token of the result is the stemmed form of a candidate word that is
  not in the stopword set. So no token of the result is a stopword whenever the
  stemming function maps no word outside the stopword set to a stopword.
\<close>

theorem C5_stopwords_before_stemming:
  "(\<forall>t\<in>set (email_body_to_words body stopwords stem).
      \<exists>w\<in>set (candidate_words body). w \<notin> stopwords \<and> t = stem w)
   \<and> ((\<forall>w. w \<notin> stopwords \<longrightarrow> stem w \<notin> stopwords) \<longrightarrow>
        (\<forall>t\<in>set (email_body_to_words body stopwords stem). t \<notin> stopwords))"
  by (auto simp add: output_tokens)

theorem C5_stopwords_before_stemming_witness:
  "email_body_to_words ''The cat and the dogs'' {''the'', ''and''} id = [''cat'', ''dogs'']
   \<and> ''cat'' \<notin> {''the'', ''and''} \<and> ''dogs'' \<notin> {''the'', ''and''}"
proof -
  have out: "email_body_to_words ''The cat and the dogs'' {''the'', ''and''} id
               = [''cat'', ''dogs'']"
    by code_simp
  have closed: "\<forall>w. w \<notin> {''the'', ''and''} \<longrightarrow> id w \<notin> {''the'', ''and''}"
    by simp
  from C5_stopwords_before_stemming [of "''The cat and the dogs''" "{''the'', ''and''}" id]
  have "\<forall>t\<in>set (email_body_to_words ''The cat and the dogs'' {''the'', ''and''} id).
          t \<notin> {''the'', ''and''}"
    using closed by blast
  with out show ?thesis by simp
qed

text \<open>
  C9. It is not the case that, for every stemming function whose results contain no
  whitespace, every token is non-empty: a stemming function that returns the empty
  string gives the empty token.
\<close>

theorem C9_empty_token_counterexample:
  "(\<forall>w. \<not> list_ex isspace (empty_stem w))
   \<and> email_body_to_words ''a'' {} empty_stem = [[]]"
proof -
  have "email_body_to_words ''a'' {} empty_stem = [[]]"
    by code_simp
  then show ?thesis by (simp add: empty_stem_def)
qed

text \<open>
  C9, as amended. If the stemming function maps every non-empty word without
  whitespace to a non-empty string without whitespace, then every token of the result
  is non-empty and contains no whitespace character.
\<close>

theorem C9_tokens_are_words:
  assumes "\<forall>w. w \<noteq> [] \<and> \<not> list_ex isspace w \<longrightarrow> stem w \<noteq> [] \<and> \<not> list_ex isspace (stem w)"
  shows "\<forall>t\<in>set (email_body_to_words body stopwords stem). t \<noteq> [] \<and> \<not> list_ex isspace t"
proof
  fix t
  assume "t \<in> set (email_body_to_words body stopwords stem)"
  then obtain w where w: "w \<in> set (candidate_words body)" and t: "t = stem w"
    by (auto simp add: output_tokens)
  from candidate_words_shape [OF w] have "w \<noteq> [] \<and> \<not> list_ex isspace w"
    by (simp add: list_ex_iff)
  with spec [OF assms, of w] have "stem w \<noteq> [] \<and> \<not> list_ex isspace (stem w)"
    by (rule mp)
  with t show "t \<noteq> [] \<and> \<not> list_ex isspace t"
    by simp
qed

theorem C9_tokens_are_words_witness:
  "email_body_to_words ''Hello,  wide''  {} id = [''hello'', ''wide'']
   \<and> ''hello'' \<noteq> [] \<and> \<not> list_ex isspace ''hello''"
proof -
  have out: "email_body_to_words ''Hello,  wide''  {} id = [''hello'', ''wide'']"
    by code_simp
  have stem: "\<forall>w. w \<noteq> [] \<and> \<not> list_ex isspace w \<longrightarrow> id w \<noteq> [] \<and> \<not> list_ex isspace (id w)"
    by simp
  have m: "''hello'' \<in> set (email_body_to_words ''Hello,  wide''  {} id)"
    by (simp add: out)
  from bspec [OF C9_tokens_are_words [OF stem] m] out show ?thesis
    by simp
qed

section \<open>Properties of the vocabulary\<close>

lemma sorted_any_listing:
  "distinct xs \<Longrightarrow> set xs = S \<Longrightarrow> sort xs = sorted_list_of_set S"
  by (metis sorted_list_of_set_sort_remdups distinct_remdups_id)

lemma insert_pairs_other:
  "w \<notin> set ws \<Longrightarrow>
   fold (\<lambda>(index, word) d. d(word \<mapsto> index)) (enumerate n ws) d w = d w"
  by (induction ws arbitrary: n d) auto

lemma insert_pairs_nth:
  "distinct ws \<Longrightarrow> i < length ws \<Longrightarrow>
   fold (\<lambda>(index, word) d. d(word \<mapsto> index)) (enumerate n ws) d (ws ! i) = Some (n + i)"
proof (induction ws arbitrary: n d i)
  case Nil
  then show ?case by simp
next
  case (Cons a ws)
  show ?case
  proof (cases i)
    case 0
    with Cons.prems insert_pairs_other [of a ws "Suc n" "d(a \<mapsto> n)"] show ?thesis
      by (simp del: fun_upd_apply) simp
  next
    case (Suc j)
    with Cons.prems Cons.IH [of j "Suc n" "d(a \<mapsto> n)"] show ?thesis
      by (simp del: fun_upd_apply)
  qed
qed

lemma finite_vocab_set: "finite (vocab_set ham spam)"
  by (simp add: vocab_set_def)

lemma vocab_nth:
  "i < length (sorted_list_of_set (vocab_set ham spam)) \<Longrightarrow>
   vocab ham spam (sorted_list_of_set (vocab_set ham spam) ! i) = Some i"
  using insert_pairs_nth [of "sorted_list_of_set (vocab_set ham spam)" i 0 Map.empty]
  by (simp add: vocab_def vocab_items_def dict_of_def)

lemma vocab_other:
  "w \<notin> vocab_set ham spam \<Longrightarrow> vocab ham spam w = None"
  using insert_pairs_other [of w "sorted_list_of_set (vocab_set ham spam)" 0 Map.empty]
  by (simp add: vocab_def vocab_items_def dict_of_def finite_vocab_set)

lemma strict_sorted_below:
  assumes "sorted ws" "distinct ws" "i < length ws"
  shows "{v \<in> set ws. v < ws ! i} = set (take i ws)"
proof (intro set_eqI iffI)
  fix v assume "v \<in> {v \<in> set ws. v < ws ! i}"
  then obtain j where j: "j < length ws" "ws ! j = v" and less: "v < ws ! i"
    by (auto simp add: in_set_conv_nth)
  have "j < i"
  proof (rule ccontr)
    assume "\<not> j < i"
    then have "i \<le> j" by simp
    with assms(1) j have "ws ! i \<le> v" by (auto simp add: sorted_iff_nth_mono)
    with less show False by simp
  qed
  with j assms(3) show "v \<in> set (take i ws)"
    by (auto simp add: in_set_conv_nth)
next
  fix v assume "v \<in> set (take i ws)"
  then obtain j where j: "j < i" "ws ! j = v"
    using assms(3) by (auto simp add: in_set_conv_nth)
  with assms have "v \<le> ws ! i" by (auto simp add: sorted_iff_nth_mono)
  moreover from j assms have "v \<noteq> ws ! i"
    by (auto simp add: nth_eq_iff_index_eq)
  ultimately show "v \<in> {v \<in> set ws. v < ws ! i}"
    using j assms(3) by auto
qed

lemma rank_nth:
  assumes "sorted ws" "distinct ws" "i < length ws"
  shows "card {v \<in> set ws. v < ws ! i} = i"
proof -
  have "card (set (take i ws)) = length (take i ws)"
    using assms(2) by (intro distinct_card) simp
  with assms(3) show ?thesis
    by (simp add: strict_sorted_below [OF assms])
qed


lemma listing_vocab_set:
  "set (sorted_list_of_set (vocab_set ham spam)) = vocab_set ham spam"
  "distinct (sorted_list_of_set (vocab_set ham spam))"
  "sorted (sorted_list_of_set (vocab_set ham spam))"
  "length (sorted_list_of_set (vocab_set ham spam)) = card (vocab_set ham spam)"
  by (simp_all add: finite_vocab_set)

lemma vocab_Some_iff:
  "vocab ham spam w = Some k \<longleftrightarrow>
     k < length (sorted_list_of_set (vocab_set ham spam))
     \<and> sorted_list_of_set (vocab_set ham spam) ! k = w"
proof
  assume some: "vocab ham spam w = Some k"
  then have "w \<in> set (sorted_list_of_set (vocab_set ham spam))"
    using vocab_other [of w ham spam] by (auto simp add: listing_vocab_set)
  then obtain i where i: "i < length (sorted_list_of_set (vocab_set ham spam))"
      "sorted_list_of_set (vocab_set ham spam) ! i = w"
    by (auto simp add: in_set_conv_nth)
  with vocab_nth [of i ham spam] some have "k = i" by simp
  with i show "k < length (sorted_list_of_set (vocab_set ham spam))
     \<and> sorted_list_of_set (vocab_set ham spam) ! k = w" by simp
next
  assume "k < length (sorted_list_of_set (vocab_set ham spam))
     \<and> sorted_list_of_set (vocab_set ham spam) ! k = w"
  with vocab_nth [of k ham spam] show "vocab ham spam w = Some k" by auto
qed

lemma dom_vocab: "dom (vocab ham spam) = vocab_set ham spam"
proof -
  have "dom (vocab ham spam) = set (sorted_list_of_set (vocab_set ham spam))"
    by (auto simp add: dom_def vocab_Some_iff in_set_conv_nth)
  then show ?thesis by (simp add: listing_vocab_set)
qed

lemma ran_vocab: "ran (vocab ham spam) = {0..<card (vocab_set ham spam)}"
  by (auto simp add: ran_def vocab_Some_iff listing_vocab_set)

lemma items_for_token:
  "length (filter (\<lambda>p. snd p = t) (enumerate n ws)) = length (filter (\<lambda>w. w = t) ws)"
  by (induction ws arbitrary: n) auto

lemma one_item_per_token:
  assumes "t \<in> vocab_set ham spam"
  shows "length (filter (\<lambda>p. snd p = t) (vocab_items ham spam)) = 1"
proof -
  have "{x. x = t} \<inter> set (sorted_list_of_set (vocab_set ham spam)) = {t}"
    using assms by (auto simp add: listing_vocab_set)
  then show ?thesis
    by (simp add: vocab_items_def items_for_token distinct_length_filter listing_vocab_set)
qed

lemma vocab_set_tokens:
  "vocab_set ham spam = (\<Union>s\<in>set (ham @ spam). set s)"
  by (auto simp add: vocab_set_def)

lemma vocab_rank:
  "(\<forall>i<length (sorted_list_of_set (vocab_set ham spam)).
      vocab ham spam (sorted_list_of_set (vocab_set ham spam) ! i) = Some i)
   \<and> (\<forall>w\<in>vocab_set ham spam.
        vocab ham spam w = Some (card {v \<in> vocab_set ham spam. v < w}))"
proof (intro conjI allI impI ballI)
  fix i assume "i < length (sorted_list_of_set (vocab_set ham spam))"
  then show "vocab ham spam (sorted_list_of_set (vocab_set ham spam) ! i) = Some i"
    by (rule vocab_nth)
next
  fix w assume "w \<in> vocab_set ham spam"
  then have "w \<in> set (sorted_list_of_set (vocab_set ham spam))"
    by (simp add: listing_vocab_set)
  then obtain i where i: "i < length (sorted_list_of_set (vocab_set ham spam))"
      "sorted_list_of_set (vocab_set ham spam) ! i = w"
    by (auto simp add: in_set_conv_nth)
  from rank_nth [OF listing_vocab_set(3) listing_vocab_set(2) i(1)] i(2)
  have "card {v \<in> vocab_set ham spam. v < w} = i"
    by (simp add: listing_vocab_set)
  with vocab_nth [OF i(1)] i(2)
  show "vocab ham spam w = Some (card {v \<in> vocab_set ham spam. v < w})"
    by simp
qed

text \<open>
  C2. Take the distinct tokens of the input: the union of the tokens of all the
  sequences of both collections. The vocabulary maps the token at index \<open>i\<close> of
  their sorted list to \<open>i\<close>; equivalently, it maps each distinct token to its
  zero-based rank, the number of distinct tokens that are smaller in the lexicographic
  order on code points; and it has no other key.
\<close>

theorem C2_vocab_rank:
  "(\<forall>i<length (sorted_list_of_set (\<Union>s\<in>set (ham @ spam). set s)).
      vocab ham spam (sorted_list_of_set (\<Union>s\<in>set (ham @ spam). set s) ! i) = Some i)
   \<and> (\<forall>w\<in>(\<Union>s\<in>set (ham @ spam). set s).
        vocab ham spam w = Some (card {v \<in> (\<Union>s\<in>set (ham @ spam). set s). v < w}))
   \<and> dom (vocab ham spam) = (\<Union>s\<in>set (ham @ spam). set s)"
  using vocab_rank [of ham spam] dom_vocab [of ham spam]
  by (simp only: vocab_set_tokens) simp

theorem C2_vocab_rank_witness:
  "sorted_list_of_set (\<Union>s\<in>set ([[''b'', ''a''], [''C'']] @ [[''a'', ''d'']]). set s)
     = [''C'', ''a'', ''b'', ''d'']
   \<and> vocab [[''b'', ''a''], [''C'']] [[''a'', ''d'']] ''b'' = Some 2
   \<and> vocab [[''b'', ''a''], [''C'']] [[''a'', ''d'']] ''C'' = Some 0"
proof -
  have ws: "sorted_list_of_set (\<Union>s\<in>set ([[''b'', ''a''], [''C'']] @ [[''a'', ''d'']]). set s)
              = [''C'', ''a'', ''b'', ''d'']"
    by code_simp
  note all = C2_vocab_rank [of "[[''b'', ''a''], [''C'']]" "[[''a'', ''d'']]"]
  have "(2::nat) < length (sorted_list_of_set
          (\<Union>s\<in>set ([[''b'', ''a''], [''C'']] @ [[''a'', ''d'']]). set s))"
    by (simp only: ws) simp
  with spec [OF conjunct1 [OF all], of 2]
  have two: "vocab [[''b'', ''a''], [''C'']] [[''a'', ''d'']]
          (sorted_list_of_set (\<Union>s\<in>set ([[''b'', ''a''], [''C'']] @ [[''a'', ''d'']]). set s) ! 2)
            = Some 2"
    by (rule mp)
  have "(0::nat) < length (sorted_list_of_set
          (\<Union>s\<in>set ([[''b'', ''a''], [''C'']] @ [[''a'', ''d'']]). set s))"
    by (simp only: ws) simp
  with spec [OF conjunct1 [OF all], of 0]
  have zero: "vocab [[''b'', ''a''], [''C'']] [[''a'', ''d'']]
          (sorted_list_of_set (\<Union>s\<in>set ([[''b'', ''a''], [''C'']] @ [[''a'', ''d'']]). set s) ! 0)
            = Some 0"
    by (rule mp)
  from two zero ws show ?thesis
    by (simp only: ws) simp
qed

text \<open>
  C6. Every token of every input sequence is a key of the vocabulary, and exactly one
  of the pairs that the comprehension inserts has that key; the values of the
  vocabulary are exactly the numbers below \<open>N\<close>, the number of distinct tokens.
\<close>

theorem C6_vocab_complete:
  "(\<forall>s\<in>set (ham @ spam). \<forall>t\<in>set s.
      t \<in> dom (vocab ham spam)
      \<and> length (filter (\<lambda>p. snd p = t) (vocab_items ham spam)) = 1)
   \<and> ran (vocab ham spam) = {0..<card (vocab_set ham spam)}
   \<and> card (vocab_set ham spam) = card (\<Union>s\<in>set (ham @ spam). set s)"
proof (intro conjI ballI)
  fix s t assume "s \<in> set (ham @ spam)" "t \<in> set s"
  then have "t \<in> vocab_set ham spam"
    by (auto simp add: vocab_set_tokens)
  then show "t \<in> dom (vocab ham spam)"
    and "length (filter (\<lambda>p. snd p = t) (vocab_items ham spam)) = 1"
    by (simp_all add: dom_vocab one_item_per_token)
next
  show "ran (vocab ham spam) = {0..<card (vocab_set ham spam)}"
    by (rule ran_vocab)
next
  show "card (vocab_set ham spam) = card (\<Union>s\<in>set (ham @ spam). set s)"
    by (simp only: vocab_set_tokens)
qed

theorem C6_vocab_complete_witness:
  "''c'' \<in> dom (vocab [[''b'', ''a''], [''c'']] [[''a'', ''d'']])
   \<and> length (filter (\<lambda>p. snd p = ''c'') (vocab_items [[''b'', ''a''], [''c'']] [[''a'', ''d'']])) = 1
   \<and> ran (vocab [[''b'', ''a''], [''c'']] [[''a'', ''d'']]) = {0..<4}"
proof -
  have n: "card (vocab_set [[''b'', ''a''], [''c'']] [[''a'', ''d'']]) = 4"
    by code_simp
  have s: "[''c''] \<in> set ([[''b'', ''a''], [''c'']] @ [[''a'', ''d'']])"
    and t: "''c'' \<in> set [''c'']"
    by simp_all
  note all = C6_vocab_complete [of "[[''b'', ''a''], [''c'']]" "[[''a'', ''d'']]"]
  from bspec [OF bspec [OF conjunct1 [OF all] s] t] conjunct1 [OF conjunct2 [OF all]] n
  show ?thesis by simp
qed

text \<open>
  C7. Reordering the sequences inside each collection, or exchanging the two
  collections, leaves the vocabulary unchanged: it depends on the union of the tokens
  only.
\<close>

theorem C7_vocab_order_independent:
  assumes "mset ham' = mset ham" and "mset spam' = mset spam"
  shows "vocab ham' spam' = vocab ham spam \<and> vocab spam' ham' = vocab ham spam"
proof -
  from assms have "set ham' = set ham" and "set spam' = set spam"
    by (auto dest: mset_eq_setD)
  then have "vocab_set ham' spam' = vocab_set ham spam"
    and "vocab_set spam' ham' = vocab_set ham spam"
    by (auto simp add: vocab_set_def)
  then show ?thesis
    by (simp add: vocab_def vocab_items_def)
qed

theorem C7_vocab_order_independent_witness:
  "vocab [[''c''], [''b'', ''a'']] [[''a'', ''d''], []] = vocab [[''b'', ''a''], [''c'']] [[], [''a'', ''d'']]
   \<and> vocab [[''a'', ''d''], []] [[''c''], [''b'', ''a'']] = vocab [[''b'', ''a''], [''c'']] [[], [''a'', ''d'']]
   \<and> vocab [[''b'', ''a''], [''c'']] [[], [''a'', ''d'']] ''d'' = Some 3"
proof -
  have ham: "mset [[''c''], [''b'', ''a'']] = mset [[''b'', ''a''], [''c'']]"
    by simp
  have spam: "mset [[''a'', ''d''], []] = mset [[], [''a'', ''d'']]"
    by simp
  have "vocab [[''b'', ''a''], [''c'']] [[], [''a'', ''d'']] ''d'' = Some 3"
    by code_simp
  with C7_vocab_order_independent [OF ham spam] show ?thesis
    by simp
qed

section \<open>Properties of the matcher\<close>

lemma plus_iter_fuel:
  "length (snd x) < n \<Longrightarrow> length (snd x) < m \<Longrightarrow> plus_iter n f x = plus_iter m f x"
proof (induction n arbitrary: m x)
  case 0
  then show ?case by simp
next
  case (Suc n)
  from Suc.prems obtain m' where m: "m = Suc m'"
    by (cases m) auto
  have "(if length (snd y) < length (snd x) then plus_iter n f y else [])
          = (if length (snd y) < length (snd x) then plus_iter m' f y else [])" for y
    using Suc.prems m by (auto intro: Suc.IH)
  then show ?case by (simp add: m)
qed

lemma rmatch_Plus_unfold:
  "rmatch (Plus a) x =
     concat (map (\<lambda>y. (if length (snd y) < length (snd x) then rmatch (Plus a) y else []) @ [y])
                 (rmatch a x))"
proof -
  have step: "(if length (snd y) < length (snd x) then plus_iter (length (snd x)) (rmatch a) y else [])
          = (if length (snd y) < length (snd x) then rmatch (Plus a) y else [])" for y
    using plus_iter_fuel [of y "length (snd x)" "Suc (length (snd y))" "rmatch a"]
    by (simp del: plus_iter.simps)
  have "rmatch (Plus a) x = plus_iter (Suc (length (snd x))) (rmatch a) x"
    by simp
  also have "\<dots> = concat (map (\<lambda>y. (if length (snd y) < length (snd x)
                 then plus_iter (length (snd x)) (rmatch a) y else []) @ [y]) (rmatch a x))"
    by (simp only: plus_iter.simps)
  also have "\<dots> = concat (map (\<lambda>y. (if length (snd y) < length (snd x)
                 then rmatch (Plus a) y else []) @ [y]) (rmatch a x))"
    by (simp only: step)
  finally show ?thesis .
qed

text \<open>A match ends inside the text it started in, after at least \<open>min_len\<close> characters.\<close>

lemma take_char_rest:
  "y \<in> set (take_char P x) \<Longrightarrow> \<exists>c. snd x = c # snd y"
  by (cases x; cases "snd x") (auto split: if_splits)

lemma plus_iter_rest:
  assumes f: "\<And>x y. y \<in> set (f x) \<Longrightarrow> \<exists>u. snd x = u @ snd y \<and> k \<le> length u"
  shows "y \<in> set (plus_iter n f x) \<Longrightarrow> \<exists>u. snd x = u @ snd y \<and> k \<le> length u"
proof (induction n arbitrary: x y)
  case 0
  then show ?case by simp
next
  case (Suc n)
  from Suc.prems obtain z where z: "z \<in> set (f x)"
      and y: "y = z \<or> y \<in> set (plus_iter n f z)"
    by (auto split: if_splits)
  from f [OF z] obtain u where u: "snd x = u @ snd z" "k \<le> length u" by blast
  from y show ?case
  proof
    assume "y = z"
    with u show ?thesis by blast
  next
    assume "y \<in> set (plus_iter n f z)"
    from Suc.IH [OF this] obtain v where "snd z = v @ snd y" by blast
    with u have "snd x = (u @ v) @ snd y" "k \<le> length (u @ v)" by simp_all
    then show ?thesis by blast
  qed
qed

lemma rep_iter_rest:
  assumes f: "\<And>x y. y \<in> set (f x) \<Longrightarrow> \<exists>u. snd x = u @ snd y \<and> k \<le> length u"
  shows "y \<in> set (rep_iter n f x) \<Longrightarrow> \<exists>u. snd x = u @ snd y \<and> n * k \<le> length u"
proof (induction n arbitrary: x y)
  case 0
  then show ?case by simp
next
  case (Suc n)
  from Suc.prems obtain z where z: "z \<in> set (f x)" and y: "y \<in> set (rep_iter n f z)"
    by auto
  from f [OF z] obtain u where u: "snd x = u @ snd z" "k \<le> length u" by blast
  from Suc.IH [OF y] obtain v where v: "snd z = v @ snd y" "n * k \<le> length v" by blast
  from u v have "snd x = (u @ v) @ snd y" "Suc n * k \<le> length (u @ v)" by simp_all
  then show ?case by blast
qed

lemma rmatch_rest:
  "y \<in> set (rmatch r x) \<Longrightarrow> \<exists>u. snd x = u @ snd y \<and> min_len r \<le> length u"
proof (induction r arbitrary: x y)
  case (Seq a b)
  from Seq.prems obtain z where z: "z \<in> set (rmatch a x)" and y: "y \<in> set (rmatch b z)"
    by auto
  from Seq.IH(1) [OF z] obtain u where u: "snd x = u @ snd z" "min_len a \<le> length u" by blast
  from Seq.IH(2) [OF y] obtain v where v: "snd z = v @ snd y" "min_len b \<le> length v" by blast
  from u v have "snd x = (u @ v) @ snd y" "min_len (Seq a b) \<le> length (u @ v)" by simp_all
  then show ?case by blast
next
  case (Alt a b)
  then have "y \<in> set (rmatch a x) \<or> y \<in> set (rmatch b x)" by simp
  then show ?case
  proof
    assume "y \<in> set (rmatch a x)"
    from Alt.IH(1) [OF this] show ?thesis by auto
  next
    assume "y \<in> set (rmatch b x)"
    from Alt.IH(2) [OF this] show ?thesis by auto
  qed
next
  case (Opt a)
  then have "y \<in> set (rmatch a x) \<or> y = x" by auto
  then show ?case
  proof
    assume "y \<in> set (rmatch a x)"
    from Opt.IH [OF this] show ?thesis by auto
  next
    assume "y = x"
    then show ?thesis by simp
  qed
next
  case (Plus a)
  from Plus.prems have "y \<in> set (plus_iter (Suc (length (snd x))) (rmatch a) x)" by simp
  from plus_iter_rest [of "rmatch a" "min_len a", OF Plus.IH this] show ?case by simp
next
  case (Rep n a)
  from Rep.prems have "y \<in> set (rep_iter n (rmatch a) x)" by simp
  from rep_iter_rest [of "rmatch a" "min_len a", OF Rep.IH this] show ?case by simp
qed (auto dest!: take_char_rest split: if_splits)

lemma rmatch_length:
  "y \<in> set (rmatch r x) \<Longrightarrow> length (snd y) + min_len r \<le> length (snd x)"
  using rmatch_rest [of y r x] by auto

lemma rmatch_subset:
  "y \<in> set (rmatch r x) \<Longrightarrow> set (snd y) \<subseteq> set (snd x)"
  using rmatch_rest [of y r x] by auto

lemma first_match_Some:
  "first_match r x = Some y \<Longrightarrow> y \<in> set (rmatch r x)"
  by (auto simp add: first_match_def split: list.splits)

lemma patterns_consume:
  "0 < min_len re_url" "0 < min_len re_email" "0 < min_len re_hash" "0 < min_len re_number"
  "0 < min_len re_non_word"
  by (simp_all add: re_url_def re_email_def re_hash_def re_number_def re_non_word_def)


text \<open>A barrier character stops every match: what follows it does not matter.\<close>

lemma take_char_extend:
  "\<not> P w \<Longrightarrow> take_char P (extend (w # v) x) = map (extend (w # v)) (take_char P x)"
  by (cases x; cases "snd x") (auto simp add: extend_def)

lemma plus_iter_extend:
  assumes f: "\<And>x. f (extend t x) = map (extend t) (f x)"
  shows "plus_iter n f (extend t x) = map (extend t) (plus_iter n f x)"
proof (induction n arbitrary: x)
  case 0
  then show ?case by simp
next
  case (Suc n)
  have "(if length (snd (extend t y)) < length (snd (extend t x))
           then plus_iter n f (extend t y) else []) @ [extend t y]
        = map (extend t) ((if length (snd y) < length (snd x) then plus_iter n f y else []) @ [y])"
    for y
    by (simp add: Suc.IH) (simp add: extend_def)
  then show ?case
    by (simp add: f map_concat comp_def)
qed

lemma rep_iter_extend:
  assumes f: "\<And>x. f (extend t x) = map (extend t) (f x)"
  shows "rep_iter n f (extend t x) = map (extend t) (rep_iter n f x)"
proof (induction n arbitrary: x)
  case 0
  then show ?case by simp
next
  case (Suc n)
  then show ?case by (simp add: f map_concat comp_def)
qed

lemma barrier_parts:
  "barrier (Seq a b) w \<Longrightarrow> barrier a w \<and> barrier b w"
  "barrier (Alt a b) w \<Longrightarrow> barrier a w \<and> barrier b w"
  "barrier (Opt a) w \<Longrightarrow> barrier a w"
  "barrier (Plus a) w \<Longrightarrow> barrier a w"
  "barrier (Rep n a) w \<Longrightarrow> barrier a w"
  by (auto simp add: barrier_def)

lemma rmatch_extend:
  "barrier r w \<Longrightarrow> rmatch r (extend (w # v) x) = map (extend (w # v)) (rmatch r x)"
proof (induction r arbitrary: x)
  case Eps
  then show ?case by simp
next
  case (Lit a)
  then show ?case by (simp add: barrier_def take_char_extend)
next
  case (CSet items)
  then show ?case by (simp add: barrier_def take_char_extend)
next
  case Digit
  then show ?case by (simp add: barrier_def take_char_extend)
next
  case NonWord
  then show ?case by (simp add: barrier_def take_char_extend)
next
  case WordB
  then have "at_boundary (extend (w # v) x) = at_boundary x"
    by (cases "snd x") (simp_all add: barrier_def at_boundary_def extend_def)
  then show ?case by simp
next
  case (Seq a b)
  from barrier_parts(1) [OF Seq.prems] Seq.IH show ?case
    by (simp add: map_concat comp_def)
next
  case (Alt a b)
  from barrier_parts(2) [OF Alt.prems] Alt.IH show ?case by simp
next
  case (Opt a)
  from barrier_parts(3) [OF Opt.prems] Opt.IH show ?case by simp
next
  case (Plus a)
  from barrier_parts(4) [OF Plus.prems] Plus.IH
  have f: "rmatch a (extend (w # v) x) = map (extend (w # v)) (rmatch a x)" for x
    by simp
  have "rmatch (Plus a) (extend (w # v) x)
          = map (extend (w # v))
              (plus_iter (Suc (length (snd (extend (w # v) x)))) (rmatch a) x)"
    using plus_iter_extend [of "rmatch a" "w # v", OF f] by (simp del: plus_iter.simps)
  also have "plus_iter (Suc (length (snd (extend (w # v) x)))) (rmatch a) x
          = plus_iter (Suc (length (snd x))) (rmatch a) x"
    by (rule plus_iter_fuel) (simp_all add: extend_def)
  finally show ?case by simp
next
  case (Rep n a)
  from barrier_parts(5) [OF Rep.prems] Rep.IH
  have f: "rmatch a (extend (w # v) x) = map (extend (w # v)) (rmatch a x)" for x
    by simp
  from rep_iter_extend [of "rmatch a" "w # v", OF f] show ?case by simp
qed

lemma first_match_extend:
  "barrier r w \<Longrightarrow>
   first_match r (p, u @ w # v) = map_option (extend (w # v)) (first_match r (p, u))"
  using rmatch_extend [of r w v "(p, u)"]
  by (simp add: first_match_def extend_def split: list.splits)

text \<open>Matching depends on the character before the position through \<open>\b\<close> only.\<close>

lemma list_all2_concat_map:
  assumes "list_all2 R xs ys" and "\<And>x y. R x y \<Longrightarrow> list_all2 S (f x) (g y)"
  shows "list_all2 S (concat (map f xs)) (concat (map g ys))"
  using assms by (induction rule: list_all2_induct) (auto intro: list_all2_appendI)

lemma same_view_refl: "same_view B x x"
  by (simp add: same_view_def)

lemma take_char_view:
  "same_view B x x' \<Longrightarrow> list_all2 (same_view B) (take_char P x) (take_char P x')"
  by (cases x; cases x'; cases "snd x") (auto simp add: same_view_def)

lemma plus_iter_view:
  assumes f: "\<And>x x'. same_view B x x' \<Longrightarrow> list_all2 (same_view B) (f x) (f x')"
  shows "same_view B x x' \<Longrightarrow> list_all2 (same_view B) (plus_iter n f x) (plus_iter n f x')"
proof (induction n arbitrary: x x')
  case 0
  then show ?case by simp
next
  case (Suc n)
  have "list_all2 (same_view B)
          ((if length (snd y) < length (snd x) then plus_iter n f y else []) @ [y])
          ((if length (snd y') < length (snd x') then plus_iter n f y' else []) @ [y'])"
    if "same_view B y y'" for y y'
  proof -
    from that Suc.prems have "snd y = snd y'" "snd x = snd x'"
      by (simp_all add: same_view_def)
    with that Suc.IH [OF that] show ?thesis
      by (auto intro: list_all2_appendI)
  qed
  with f [OF Suc.prems] show ?case
    by (simp del: append.simps) (rule list_all2_concat_map)
qed

lemma rep_iter_view:
  assumes f: "\<And>x x'. same_view B x x' \<Longrightarrow> list_all2 (same_view B) (f x) (f x')"
  shows "same_view B x x' \<Longrightarrow> list_all2 (same_view B) (rep_iter n f x) (rep_iter n f x')"
proof (induction n arbitrary: x x')
  case 0
  then show ?case by simp
next
  case (Suc n)
  from f [OF Suc.prems] Suc.IH show ?case
    by simp (rule list_all2_concat_map)
qed

lemma rmatch_view:
  "(uses_boundary r \<longrightarrow> B) \<Longrightarrow> same_view B x x' \<Longrightarrow>
   list_all2 (same_view B) (rmatch r x) (rmatch r x')"
proof (induction r arbitrary: x x')
  case WordB
  then have "at_boundary x = at_boundary x'"
    by (simp add: same_view_def at_boundary_def)
  with WordB show ?case by simp
next
  case (Seq a b)
  then have "list_all2 (same_view B) (rmatch a x) (rmatch a x')" by simp
  moreover from Seq have "list_all2 (same_view B) (rmatch b y) (rmatch b y')"
    if "same_view B y y'" for y y'
    using that by simp
  ultimately show ?case
    by simp (rule list_all2_concat_map)
next
  case (Alt a b)
  then have "list_all2 (same_view B) (rmatch a x) (rmatch a x')"
    and "list_all2 (same_view B) (rmatch b x) (rmatch b x')"
    by simp_all
  then show ?case by (simp add: list_all2_appendI)
next
  case (Opt a)
  then have "list_all2 (same_view B) (rmatch a x) (rmatch a x')"
    and "list_all2 (same_view B) [x] [x']"
    by simp_all
  then show ?case by (simp add: list_all2_appendI)
next
  case (Plus a)
  from Plus have f: "list_all2 (same_view B) (rmatch a y) (rmatch a y')"
    if "same_view B y y'" for y y'
    using that by simp
  from Plus.prems have "snd x = snd x'" by (simp add: same_view_def)
  with plus_iter_view [of B "rmatch a", OF f Plus.prems(2)] show ?case
    by (simp del: plus_iter.simps)
next
  case (Rep n a)
  from Rep have f: "list_all2 (same_view B) (rmatch a y) (rmatch a y')"
    if "same_view B y y'" for y y'
    using that by simp
  from rep_iter_view [of B "rmatch a", OF f Rep.prems(2)] show ?case by simp
qed (simp_all add: take_char_view)

lemma first_match_view:
  assumes "uses_boundary r \<longrightarrow> B" and "same_view B x x'"
  shows "rel_option (same_view B) (first_match r x) (first_match r x')"
  using rmatch_view [OF assms]
  by (cases "rmatch r x"; cases "rmatch r x'") (simp_all add: first_match_def)


section \<open>Properties of the substitution\<close>

lemma sub_from_view:
  assumes r: "uses_boundary r \<longrightarrow> B"
  shows "(B \<longrightarrow> word_before p = word_before p') \<Longrightarrow>
         sub_from r repl p s = sub_from r repl p' s"
proof (induction "length s" arbitrary: s p p' rule: less_induct)
  case less
  show ?case
  proof (cases s)
    case Nil
    then show ?thesis by simp
  next
    case (Cons c cs)
    from less.prems have "same_view B (p, s) (p', s)"
      by (simp add: same_view_def)
    from first_match_view [OF r this]
    have m: "rel_option (same_view B) (first_match r (p, s)) (first_match r (p', s))" .
    have tl: "sub_from r repl (Some c) cs = sub_from r repl (Some c) cs" ..
    show ?thesis
    proof (cases "first_match r (p, s)")
      case None
      with m have "first_match r (p', s) = None" by simp
      with None Cons show ?thesis by simp
    next
      case (Some y)
      with m obtain y' where y': "first_match r (p', s) = Some y'" "same_view B y y'"
        by (auto simp add: option_rel_Some1)
      obtain q t where y: "y = (q, t)" by (cases y)
      with y' obtain q' where q': "y' = (q', t)" "B \<longrightarrow> word_before q = word_before q'"
        by (cases y') (auto simp add: same_view_def)
      show ?thesis
      proof (cases "length t < length s")
        case True
        from less.hyps [OF True q'(2)]
        have "sub_from r repl q t = sub_from r repl q' t" .
        with Some y y' q' Cons True show ?thesis by simp
      next
        case False
        with Some y y' q' Cons show ?thesis by simp
      qed
    qed
  qed
qed

lemma sub_from_barrier:
  assumes w: "barrier r w"
  shows "sub_from r repl p (u @ w # v)
           = sub_from r repl p u @ w # sub_from r repl (Some w) v"
proof (induction "length u" arbitrary: u p rule: less_induct)
  case less
  note fm = first_match_extend [OF w, of p u v]
  show ?case
  proof (cases u)
    case Nil
    have "length t = length (w # v)"
      if "first_match r (p, w # v) = Some (q, t)" for q t
    proof -
      from that fm Nil
      have "map_option (extend (w # v)) (first_match r (p, [])) = Some (q, t)"
        by simp
      then obtain y where y: "first_match r (p, []) = Some y"
          and "(q, t) = extend (w # v) y"
        by (cases "first_match r (p, [])") auto
      from first_match_Some [OF y] have "snd y = []"
        using rmatch_rest [of y r "(p, [])"] by simp
      with \<open>(q, t) = extend (w # v) y\<close> show ?thesis
        by (simp add: extend_def)
    qed
    then have "sub_from r repl p (w # v) = w # sub_from r repl (Some w) v"
      by (auto split: option.splits)
    with Nil show ?thesis by simp
  next
    case (Cons c cs)
    show ?thesis
    proof (cases "first_match r (p, u)")
      case None
      with fm have "first_match r (p, u @ w # v) = None" by simp
      with None Cons less.hyps [of cs "Some c"] show ?thesis by simp
    next
      case (Some y)
      obtain q t where y: "y = (q, t)" by (cases y)
      with Some fm have ext: "first_match r (p, u @ w # v) = Some (q, t @ w # v)"
        by (simp add: extend_def)
      show ?thesis
      proof (cases "length t < length u")
        case True
        from less.hyps [OF True]
        have "sub_from r repl q (t @ w # v)
                = sub_from r repl q t @ w # sub_from r repl (Some w) v" .
        with Some y ext Cons True show ?thesis by simp
      next
        case False
        with Some y ext Cons less.hyps [of cs "Some c"] show ?thesis by simp
      qed
    qed
  qed
qed

lemma sub_Nil: "sub r repl [] = []"
  by (simp add: sub_def)

lemma sub_split:
  assumes "barrier r w"
  shows "sub r repl (u @ w # v) = sub r repl u @ w # sub r repl v"
proof -
  from assms have "uses_boundary r \<longrightarrow> word_before (Some w) = word_before None"
    by (simp add: barrier_def)
  from sub_from_view [of r "uses_boundary r", OF _ this]
  have "sub_from r repl (Some w) v = sub_from r repl None v" by simp
  with sub_from_barrier [OF assms, of repl None u v] show ?thesis
    by (simp add: sub_def)
qed

text \<open>
  A text between two barriers (or ends of the body) is rewritten on its own.
\<close>

lemma sub_split_around:
  assumes pre: "pre = [] \<or> barrier r (last pre)"
    and post: "post = [] \<or> barrier r (hd post)"
  shows "sub r repl (pre @ mid @ post) = sub r repl pre @ sub r repl mid @ sub r repl post"
proof -
  have right: "sub r repl (mid @ post) = sub r repl mid @ sub r repl post"
  proof (cases post)
    case Nil
    then show ?thesis by (simp add: sub_Nil)
  next
    case (Cons w v)
    with post have b: "barrier r w" by simp
    from sub_split [OF b, of repl mid v] sub_split [OF b, of repl "[]" v] Cons
    show ?thesis by (simp add: sub_Nil)
  qed
  show ?thesis
  proof (cases pre rule: rev_cases)
    case Nil
    with right show ?thesis by (simp add: sub_Nil)
  next
    case (snoc u w)
    with pre have b: "barrier r w" by simp
    from sub_split [OF b, of repl u "mid @ post"] sub_split [OF b, of repl u "[]"] snoc right
    show ?thesis by (simp add: sub_Nil)
  qed
qed



section \<open>The hash pattern\<close>

lemma rep_take_char_hit:
  "length h = n \<Longrightarrow> 0 < n \<Longrightarrow> \<forall>c\<in>set h. P c \<Longrightarrow>
   rep_iter n (take_char P) (p, h @ rest) = [(Some (last h), rest)]"
proof (induction n arbitrary: h p)
  case 0
  then show ?case by simp
next
  case (Suc n)
  from Suc.prems obtain c h' where h: "h = c # h'" "length h' = n"
    by (cases h) auto
  show ?case
  proof (cases n)
    case 0
    with h Suc.prems show ?thesis by simp
  next
    case (Suc k)
    with h have "h' \<noteq> []" by auto
    with Suc.IH [of h' "Some c"] h Suc.prems Suc show ?thesis by simp
  qed
qed

lemma rep_take_char_miss:
  "length s < n \<or> (\<exists>c\<in>set (take n s). \<not> P c) \<Longrightarrow> rep_iter n (take_char P) (p, s) = []"
proof (induction n arbitrary: s p)
  case 0
  then show ?case by simp
next
  case (Suc n)
  show ?case
  proof (cases s)
    case Nil
    then show ?thesis by simp
  next
    case (Cons c cs)
    show ?thesis
    proof (cases "P c")
      case True
      with Suc.prems Cons have "length cs < n \<or> (\<exists>c\<in>set (take n cs). \<not> P c)"
        by auto
      from Suc.IH [OF this] Cons True show ?thesis by simp
    next
      case False
      with Cons show ?thesis by simp
    qed
  qed
qed

lemma first_match_hash_hit:
  assumes "length h = 32" and "\<forall>c\<in>set h. in_cset hexdigit_lc c"
  shows "first_match re_hash (p, h @ rest) = Some (Some (last h), rest)"
  using rep_take_char_hit [of h 32 "in_cset hexdigit_lc" p rest] assms
  by (simp add: first_match_def re_hash_def)

lemma first_match_hash_miss:
  assumes "length s < 32 \<or> (\<exists>c\<in>set (take 32 s). \<not> in_cset hexdigit_lc c)"
  shows "first_match re_hash (p, s) = None"
  using rep_take_char_miss [of s 32 "in_cset hexdigit_lc" p] assms
  by (simp add: first_match_def re_hash_def)

lemma sub_from_hash_prev:
  "sub_from re_hash repl p s = sub_from re_hash repl p' s"
  by (rule sub_from_view [of re_hash False]) (simp_all add: re_hash_def)

lemma sub_from_hash_short:
  assumes "rest = [] \<or> \<not> in_cset hexdigit_lc (hd rest)"
  shows "length h < 32 \<Longrightarrow>
         sub_from re_hash repl p (h @ rest) = h @ sub_from re_hash repl p rest"
proof (induction h arbitrary: p)
  case Nil
  then show ?case by simp
next
  case (Cons c h)
  have "length (c # h @ rest) < 32 \<or> (\<exists>d\<in>set (take 32 (c # h @ rest)). \<not> in_cset hexdigit_lc d)"
  proof (cases rest)
    case Nil
    with Cons.prems show ?thesis by simp
  next
    case (Cons d ds)
    with assms have "\<not> in_cset hexdigit_lc d" by simp
    moreover from Cons.prems obtain k where "31 - length h = Suc k"
      by (cases "31 - length h") auto
    with Cons have "d \<in> set (take 32 (c # h @ rest))"
      by simp
    ultimately show ?thesis by blast
  qed
  from first_match_hash_miss [OF this] Cons.IH [of "Some c"] Cons.prems
  show ?case
    by (simp add: sub_from_hash_prev [of repl "Some c" rest p])
qed

lemma sub_from_hash_run:
  assumes hex: "\<forall>c\<in>set h. in_cset hexdigit_lc c"
    and rest: "rest = [] \<or> \<not> in_cset hexdigit_lc (hd rest)"
  shows "sub_from re_hash repl p (h @ rest)
           = concat (replicate (length h div 32) repl) @ drop (32 * (length h div 32)) h
               @ sub_from re_hash repl p rest"
  using hex
proof (induction "length h" arbitrary: h p rule: less_induct)
  case less
  show ?case
  proof (cases "length h < 32")
    case True
    with sub_from_hash_short [OF rest True, of repl p] show ?thesis by simp
  next
    case False
    define h1 h2 where "h1 = take 32 h" and "h2 = drop 32 h"
    with False have h: "h = h1 @ h2" "length h1 = 32" "length h2 < length h"
      by simp_all
    from h less.prems have hex1: "\<forall>c\<in>set h1. in_cset hexdigit_lc c"
      and hex2: "\<forall>c\<in>set h2. in_cset hexdigit_lc c"
      by (metis Un_iff set_append)+
    from h(2) obtain c cs where c: "h1 = c # cs" by (cases h1) auto
    from first_match_hash_hit [OF h(2) hex1, of p "h2 @ rest"] h(2) c
    have "sub_from re_hash repl p (h1 @ h2 @ rest)
            = repl @ sub_from re_hash repl (Some (last h1)) (h2 @ rest)"
      by simp
    also from less.hyps [OF h(3) hex2, of "Some (last h1)"]
    have "sub_from re_hash repl (Some (last h1)) (h2 @ rest)
            = concat (replicate (length h2 div 32) repl) @ drop (32 * (length h2 div 32)) h2
                @ sub_from re_hash repl p rest"
      by (simp add: sub_from_hash_prev [of repl "Some (last h1)" rest p])
    finally have "sub_from re_hash repl p (h @ rest)
            = concat (replicate (Suc (length h2 div 32)) repl)
                @ drop (32 * (length h2 div 32)) h2 @ sub_from re_hash repl p rest"
      using h(1) by simp
    moreover from h have "length h div 32 = Suc (length h2 div 32)"
      by simp
    moreover from h have "drop (32 * Suc (length h2 div 32)) h = drop (32 * (length h2 div 32)) h2"
      by simp
    ultimately show ?thesis by simp
  qed
qed


lemma barrier_hash: "barrier re_hash w \<longleftrightarrow> \<not> in_cset hexdigit_lc w"
  by (simp add: barrier_def re_hash_def)

text \<open>
  C10. The hash pattern is not anchored: in a run of \<open>n\<close> lower-case hexadecimal
  characters that ends at a character of another kind (or at an end of the text), the
  substitution replaces the \<open>n div 32\<close> leftmost windows of 32 characters, each by
  the marker, and keeps the last \<open>n mod 32\<close> characters. A run of 64 characters
  becomes \<open>HASHHASH\<close>, one candidate word.
\<close>

theorem C10_hash_windows:
  assumes "\<forall>c\<in>set h. in_cset hexdigit_lc c"
    and "pre = [] \<or> \<not> in_cset hexdigit_lc (last pre)"
    and "post = [] \<or> \<not> in_cset hexdigit_lc (hd post)"
  shows "sub re_hash ''HASH'' (pre @ h @ post)
           = sub re_hash ''HASH'' pre
               @ concat (replicate (length h div 32) ''HASH'')
               @ drop (32 * (length h div 32)) h
               @ sub re_hash ''HASH'' post"
proof -
  have run: "sub re_hash ''HASH'' (h @ post)
               = concat (replicate (length h div 32) ''HASH'')
                   @ drop (32 * (length h div 32)) h @ sub re_hash ''HASH'' post"
    using sub_from_hash_run [OF assms(1) assms(3), of "''HASH''" None]
    by (simp add: sub_def)
  from assms(2) have "pre = [] \<or> barrier re_hash (last pre)"
    by (simp add: barrier_hash)
  from sub_split_around [OF this, of "[]" "''HASH''" "h @ post"]
  have "sub re_hash ''HASH'' (pre @ h @ post)
          = sub re_hash ''HASH'' pre @ sub re_hash ''HASH'' (h @ post)"
    by (simp add: sub_Nil)
  with run show ?thesis by simp
qed

theorem C10_hash_windows_witness:
  "sub re_hash ''HASH''
     (''key '' @ ''0123456789abcdef0123456789abcdef0123456789abcdef0123456789abcdef'' @ '' end'')
     = ''key HASHHASH end''
   \<and> email_body_to_words
       ''0123456789abcdef0123456789abcdef0123456789abcdef0123456789abcdef'' {} id
     = [''HASHHASH'']"
proof -
  have hex: "\<forall>c\<in>set ''0123456789abcdef0123456789abcdef0123456789abcdef0123456789abcdef''.
               in_cset hexdigit_lc c"
    by code_simp
  have pre: "''key '' = [] \<or> \<not> in_cset hexdigit_lc (last ''key '')"
    by code_simp
  have post: "'' end'' = [] \<or> \<not> in_cset hexdigit_lc (hd '' end'')"
    by code_simp
  have pieces: "sub re_hash ''HASH'' ''key ''
      @ concat (replicate
          (length ''0123456789abcdef0123456789abcdef0123456789abcdef0123456789abcdef'' div 32)
          ''HASH'')
      @ drop (32 * (length ''0123456789abcdef0123456789abcdef0123456789abcdef0123456789abcdef''
                     div 32))
          ''0123456789abcdef0123456789abcdef0123456789abcdef0123456789abcdef''
      @ sub re_hash ''HASH'' '' end''
      = ''key HASHHASH end''"
    by code_simp
  have words: "email_body_to_words
       ''0123456789abcdef0123456789abcdef0123456789abcdef0123456789abcdef'' {} id
     = [''HASHHASH'']"
    by code_simp
  from C10_hash_windows [OF hex pre post] pieces words show ?thesis
    by (simp only:)
qed

section \<open>Texts that a pattern leaves unchanged\<close>









section \<open>A hexadecimal digest standing as a word\<close>




lemma whitespace_delimiter: "\<forall>c. isspace c \<longrightarrow> delimiter c"
  by code_simp

lemma delimiter_examples:
  "delimiter (CHR '' '') \<and> delimiter (CHR 0x0A) \<and> delimiter (CHR 0x22)
   \<and> delimiter (CHR ''#'') \<and> delimiter (CHR ''{'') \<and> delimiter (CHR ''}'')
   \<and> \<not> delimiter (CHR ''('') \<and> \<not> delimiter (CHR ''.'') \<and> \<not> delimiter (CHR ''-'')"
  by code_simp








text \<open>
  The order of the two steps matters for a run of 32 decimal digits: with the hash
  step first it becomes \<open>HASH\<close>, with the number step first it would become
  \<open>NUMBER\<close>.
\<close>

lemma hash_step_first_matters:
  "substitute ''sum 12345678901234567890123456789012.'' = ''sum HASH.''
   \<and> sub re_hash ''HASH'' (sub re_number ''NUMBER'' ''sum 12345678901234567890123456789012.'')
       = ''sum NUMBER.''"
  by code_simp




section \<open>The candidate words\<close>

text \<open>
  A pattern that consumes at least one character never matches the empty string, so
  at a match the substitution always emits the replacement and goes on after it.
\<close>

lemma sub_from_step:
  assumes "0 < min_len r"
  shows "sub_from r repl p (c # cs) =
           (case first_match r (p, c # cs) of
              None \<Rightarrow> c # sub_from r repl (Some c) cs
            | Some (q, rest) \<Rightarrow> repl @ sub_from r repl q rest)"
proof (cases "first_match r (p, c # cs)")
  case None
  then show ?thesis by simp
next
  case (Some y)
  from rmatch_length [OF first_match_Some [OF Some]] assms
  have "length (snd y) < length (c # cs)" by simp
  with Some show ?thesis by (cases y) simp
qed

text \<open>
  After the step that replaces the runs of non-word characters, the body consists of
  word characters and single spaces, so the candidate words are non-empty strings of
  word characters.
\<close>

lemma non_word_matches:
  assumes "\<not> is_word c"
  shows "first_match re_non_word (p, c # cs) \<noteq> None"
proof -
  from assms have "rmatch NonWord (p, c # cs) = [(Some c, cs)]" by simp
  then have "rmatch (Plus NonWord) (p, c # cs) \<noteq> []"
    by (simp only: rmatch_Plus_unfold [of NonWord "(p, c # cs)"]) simp
  then show ?thesis
    by (simp add: first_match_def re_non_word_def split: list.splits)
qed

lemma sub_from_non_word_chars:
  "d \<in> set (sub_from re_non_word '' '' p s) \<Longrightarrow> is_word d \<or> d = CHR '' ''"
proof (induction "length s" arbitrary: s p rule: less_induct)
  case less
  show ?case
  proof (cases s)
    case Nil
    with less.prems show ?thesis by simp
  next
    case (Cons c cs)
    note step = sub_from_step [OF patterns_consume(5), of "'' ''" p c cs]
    show ?thesis
    proof (cases "first_match re_non_word (p, c # cs)")
      case None
      with non_word_matches [of c p cs] have c: "is_word c" by auto
      from None step less.prems Cons
      have "d = c \<or> d \<in> set (sub_from re_non_word '' '' (Some c) cs)" by simp
      with c less.hyps [of cs "Some c"] Cons show ?thesis by auto
    next
      case (Some y)
      obtain q t where y: "y = (q, t)" by (cases y)
      from rmatch_length [OF first_match_Some [OF Some]] y Cons
      have t: "length t < length s" by (simp add: re_non_word_def)
      from Some y step less.prems Cons
      have "d = CHR '' '' \<or> d \<in> set (sub_from re_non_word '' '' q t)" by simp
      with less.hyps [OF t, of q] show ?thesis by auto
    qed
  qed
qed

lemma split_from_chars:
  "w \<in> set (split_from cur s) \<Longrightarrow> set w \<subseteq> set cur \<union> set s"
proof (induction s arbitrary: cur)
  case Nil
  then show ?case by (simp split: if_splits)
next
  case (Cons a s)
  show ?case
  proof (cases "isspace a")
    case True
    with Cons.prems have "w = cur \<or> w \<in> set (split_from [] s)"
      by (simp split: if_splits)
    with Cons.IH [of "[]"] show ?thesis by auto
  next
    case False
    with Cons.prems Cons.IH [of "cur @ [a]"] show ?thesis by auto
  qed
qed

lemma candidate_words_word_chars:
  assumes "w \<in> set (candidate_words body)"
  shows "w \<noteq> [] \<and> (\<forall>c\<in>set w. is_word c)"
proof -
  from candidate_words_shape [OF assms]
  have w: "w \<noteq> []" and ws: "\<forall>c\<in>set w. \<not> isspace c" by simp_all
  have space: "isspace (CHR '' '')" by (simp add: isspace_def)
  from assms split_from_chars [of w "[]"]
  have "set w \<subseteq> set (strip (sub re_non_word '' '' (substitute body)))"
    by (simp add: candidate_words_def split_def)
  also have "\<dots> \<subseteq> set (sub re_non_word '' '' (substitute body))"
    by (auto simp add: strip_def dest!: set_dropWhileD)
  finally have "\<forall>c\<in>set w. is_word c \<or> c = CHR '' ''"
    by (auto simp add: sub_def dest: sub_from_non_word_chars)
  with ws space w show ?thesis by auto
qed

end
